theory Spec2Isabelle
  imports Main "HOL-Library.Word"
begin

section \<open>Data model (src/types/index.ts)\<close>

text \<open>
  A JavaScript string is a sequence of 16-bit code units; the regular expression of
  \<open>replaceInString\<close> has no \<open>u\<close> flag, so it works on code units too.
  \<open>js\<close> embeds an ASCII literal.
\<close>

type_synonym code_unit = "16 word"
type_synonym jsstring = "code_unit list"

definition js :: "string \<Rightarrow> jsstring" where
  "js s = map (\<lambda>c. of_nat (of_char c)) s"

text \<open>
  \<open>JsonValue\<close>: string | number | boolean | null | JsonObject | JsonArray.
  The replacer never inspects a number and returns it as it is, so \<open>int\<close> stands for
  the payload of \<open>JNumber\<close>. An object is the list of its own entries in
  \<open>Object.keys\<close> order; the keys of a JavaScript object are pairwise distinct, so
  the assignment \<open>result[key] = ...\<close> to a fresh object inside a loop over
  \<open>Object.keys\<close> appends an entry. The counters of the context are JavaScript
  numbers holding integers that \<open>++\<close> and \<open>--\<close> keep exact; they are \<open>int\<close> here.
\<close>

datatype JsonValue =
    JNull
  | JBool bool
  | JNumber int
  | JString jsstring
  | JArray "JsonValue list"
  | JObject "(jsstring \<times> JsonValue) list"

record ReplacementContext =
  count :: int
  limit :: int
  depth :: int
  maxDepth :: int

record ReplacementResult =
  result :: JsonValue
  replacements :: int
  limitReached :: bool

datatype error = DepthLimitExceededError int | SyntaxError

section \<open>The replacer (src/services/jsonReplacer.ts)\<close>

definition SOURCE_WORD :: jsstring where
  "SOURCE_WORD = js ''dog''"

definition TARGET_WORD :: jsstring where
  "TARGET_WORD = js ''cat''"

definition DANGEROUS_KEYS :: "jsstring set" where
  "DANGEROUS_KEYS = {js ''__proto__'', js ''constructor'', js ''prototype''}"

text \<open>The character class \<open>[a-zA-Z0-9]\<close> of the two lookarounds.\<close>

definition is_alnum :: "code_unit \<Rightarrow> bool" where
  "is_alnum c \<longleftrightarrow>
     (0x61 \<le> c \<and> c \<le> 0x7A) \<or> (0x41 \<le> c \<and> c \<le> 0x5A) \<or> (0x30 \<le> c \<and> c \<le> 0x39)"

text \<open>
  The pattern \<open>(?<![a-zA-Z0-9])dog(?![a-zA-Z0-9])\<close> matches at index \<open>i\<close> of
  \<open>str\<close>: no alphanumeric unit right before \<open>i\<close>, the source word at \<open>i\<close>, no
  alphanumeric unit right after it. The lookarounds see the whole string.
\<close>

definition match_at :: "jsstring \<Rightarrow> nat \<Rightarrow> bool" where
  "match_at str i \<longleftrightarrow>
     \<not> (0 < i \<and> is_alnum (str ! (i - 1))) \<and>
     take (length SOURCE_WORD) (drop i str) = SOURCE_WORD \<and>
     \<not> (i + length SOURCE_WORD < length str \<and> is_alnum (str ! (i + length SOURCE_WORD)))"

text \<open>
  \<open>pattern.exec(str)\<close> of a global pattern whose \<open>lastIndex\<close> is \<open>i\<close>: the index of
  the first match at or after \<open>i\<close>, or \<open>None\<close> for \<open>null\<close>.
\<close>

definition regexp_exec :: "jsstring \<Rightarrow> nat \<Rightarrow> nat option" where
  "regexp_exec str i = find (match_at str) [i..<Suc (length str)]"

text \<open>\<open>str.slice(a, b)\<close> and \<open>str.slice(a)\<close> for \<open>0 \<le> a\<close>.\<close>

definition str_slice :: "jsstring \<Rightarrow> nat \<Rightarrow> nat \<Rightarrow> jsstring" where
  "str_slice str a b = take (b - a) (drop a str)"

definition slice_from :: "jsstring \<Rightarrow> nat \<Rightarrow> jsstring" where
  "slice_from str a = drop a str"

text \<open>
  The \<open>while\<close> loop of \<open>replaceInString\<close>. \<open>res\<close> is the local \<open>result\<close>,
  \<open>lastIndex\<close> the local one and \<open>pat\<close> the pattern's own \<open>lastIndex\<close>, which
  \<open>exec\<close> sets to the end of the match.
\<close>

function replace_loop ::
  "jsstring \<Rightarrow> ReplacementContext \<Rightarrow> jsstring \<Rightarrow> nat \<Rightarrow> nat \<Rightarrow> jsstring \<times> ReplacementContext"
where
  "replace_loop str ctx res lastIndex pat =
     (case regexp_exec str pat of
        None \<Rightarrow> (res @ slice_from str lastIndex, ctx)
      | Some m \<Rightarrow>
          if count ctx \<ge> limit ctx then (res @ slice_from str lastIndex, ctx)
          else replace_loop str (ctx\<lparr>count := count ctx + 1\<rparr>)
                 (res @ str_slice str lastIndex m @ TARGET_WORD)
                 (m + length SOURCE_WORD) (m + length SOURCE_WORD))"
  by pat_completeness auto
termination
proof (relation "measure (\<lambda>(str, ctx, res, lastIndex, pat). Suc (length str) - pat)")
  show "wf (measure (\<lambda>(str, ctx, res, lastIndex, pat). Suc (length str) - pat))" by simp
next
  fix str :: jsstring and ctx :: ReplacementContext and res :: jsstring
    and lastIndex pat m :: nat
  assume ex: "regexp_exec str pat = Some m"
  have found: "find P xs = Some x \<Longrightarrow> x \<in> set xs \<and> P x"
    for P :: "nat \<Rightarrow> bool" and xs x
    by (induction xs) (auto split: if_splits)
  have len: "length SOURCE_WORD = 3"
    by (simp add: SOURCE_WORD_def js_def)
  from found[OF ex[unfolded regexp_exec_def]]
  have "pat \<le> m" and "match_at str m" by (simp_all del: upt_Suc)
  then have "length (take 3 (drop m str)) = 3"
    unfolding match_at_def by (metis len)
  then have "m + 3 \<le> length str"
    by (simp add: min_def split: if_splits)
  with \<open>pat \<le> m\<close> have "Suc (length str) - (m + 3) < Suc (length str) - pat" by arith
  then show "((str, ctx\<lparr>count := count ctx + 1\<rparr>, res @ str_slice str lastIndex m @ TARGET_WORD,
           m + length SOURCE_WORD, m + length SOURCE_WORD), str, ctx, res, lastIndex, pat)
        \<in> measure (\<lambda>(str, ctx, res, lastIndex, pat). Suc (length str) - pat)"
    by (simp add: len)
qed

definition replaceInString :: "jsstring \<Rightarrow> ReplacementContext \<Rightarrow> jsstring \<times> ReplacementContext" where
  "replaceInString str ctx =
     (if count ctx \<ge> limit ctx then (str, ctx)
      else replace_loop str ctx [] 0 0)"

text \<open>
  \<open>traverse\<close>, \<open>traverseArray\<close> and \<open>traverseObject\<close>. The context is mutated in
  place by the source, so every function returns it, also when it throws: the first
  component is \<open>Inl\<close> of the thrown error or \<open>Inr\<close> of the returned value, the second
  the context as the call leaves it. The \<open>finally\<close> block of \<open>traverse\<close> decrements
  \<open>depth\<close> on both paths. \<open>Array.map\<close> and the \<open>for\<close> loop stop at the first throw.
\<close>

fun traverse :: "JsonValue \<Rightarrow> ReplacementContext \<Rightarrow> (error + JsonValue) \<times> ReplacementContext"
  and traverseArray ::
    "JsonValue list \<Rightarrow> ReplacementContext \<Rightarrow> (error + JsonValue list) \<times> ReplacementContext"
  and traverseObject ::
    "(jsstring \<times> JsonValue) list \<Rightarrow> ReplacementContext \<Rightarrow>
       (error + (jsstring \<times> JsonValue) list) \<times> ReplacementContext"
where
  "traverse value ctx =
     (if depth ctx > maxDepth ctx then (Inl (DepthLimitExceededError (maxDepth ctx)), ctx)
      else case value of
        JNull \<Rightarrow> (Inr JNull, ctx)
      | JString str \<Rightarrow> (case replaceInString str ctx of (s, ctx') \<Rightarrow> (Inr (JString s), ctx'))
      | JNumber n \<Rightarrow> (Inr (JNumber n), ctx)
      | JBool b \<Rightarrow> (Inr (JBool b), ctx)
      | JArray arr \<Rightarrow>
          (case traverseArray arr (ctx\<lparr>depth := depth ctx + 1\<rparr>) of
             (Inl e, ctx') \<Rightarrow> (Inl e, ctx'\<lparr>depth := depth ctx' - 1\<rparr>)
           | (Inr vs, ctx') \<Rightarrow> (Inr (JArray vs), ctx'\<lparr>depth := depth ctx' - 1\<rparr>))
      | JObject obj \<Rightarrow>
          (case traverseObject obj (ctx\<lparr>depth := depth ctx + 1\<rparr>) of
             (Inl e, ctx') \<Rightarrow> (Inl e, ctx'\<lparr>depth := depth ctx' - 1\<rparr>)
           | (Inr kvs, ctx') \<Rightarrow> (Inr (JObject kvs), ctx'\<lparr>depth := depth ctx' - 1\<rparr>)))"
| "traverseArray [] ctx = (Inr [], ctx)"
| "traverseArray (item # arr) ctx =
     (case traverse item ctx of
        (Inl e, ctx') \<Rightarrow> (Inl e, ctx')
      | (Inr v, ctx') \<Rightarrow>
          (case traverseArray arr ctx' of
             (Inl e, ctx'') \<Rightarrow> (Inl e, ctx'')
           | (Inr vs, ctx'') \<Rightarrow> (Inr (v # vs), ctx'')))"
| "traverseObject [] ctx = (Inr [], ctx)"
| "traverseObject ((key, v) # obj) ctx =
     (if key \<in> DANGEROUS_KEYS then traverseObject obj ctx
      else case traverse v ctx of
        (Inl e, ctx') \<Rightarrow> (Inl e, ctx')
      | (Inr v', ctx') \<Rightarrow>
          (case traverseObject obj ctx' of
             (Inl e, ctx'') \<Rightarrow> (Inl e, ctx'')
           | (Inr kvs, ctx'') \<Rightarrow> (Inr ((key, v') # kvs), ctx'')))"

definition replaceDogsWithCats :: "JsonValue \<Rightarrow> int \<Rightarrow> int \<Rightarrow> error + ReplacementResult" where
  "replaceDogsWithCats input maxReplacements maxDepth' =
     (let context = \<lparr>count = 0, limit = maxReplacements, depth = 0, maxDepth = maxDepth'\<rparr>
      in case traverse input context of
           (Inl e, context') \<Rightarrow> Inl e
         | (Inr r, context') \<Rightarrow>
             Inr \<lparr>result = r, replacements = count context',
                  limitReached = (count context' \<ge> limit context')\<rparr>)"

text \<open>
  \<open>safeJsonParse\<close> calls the host's \<open>JSON.parse\<close> with a reviver. The host parser is
  not part of the repository: \<open>JSON_parse\<close> stands for its grammar, from a text to the
  parsed value (\<open>None\<close> when it throws its \<open>SyntaxError\<close>), and is a parameter. What
  \<open>JSON.parse\<close> does with a reviver is fixed by ECMAScript (InternalizeJSONProperty): it
  walks the parsed value bottom-up, replaces every element and every property value by
  the reviver's result for it, and at last gives the root to the reviver.
\<close>

definition reviver :: "JsonValue \<Rightarrow> JsonValue" where
  "reviver value =
     (case value of
        JObject obj \<Rightarrow> JObject (filter (\<lambda>(k, v). k \<notin> DANGEROUS_KEYS) obj)
      | _ \<Rightarrow> value)"

fun internalize :: "JsonValue \<Rightarrow> JsonValue"
  and internalize_elements :: "JsonValue list \<Rightarrow> JsonValue list"
  and internalize_properties :: "(jsstring \<times> JsonValue) list \<Rightarrow> (jsstring \<times> JsonValue) list"
where
  "internalize (JArray arr) = reviver (JArray (internalize_elements arr))"
| "internalize (JObject obj) = reviver (JObject (internalize_properties obj))"
| "internalize JNull = reviver JNull"
| "internalize (JBool b) = reviver (JBool b)"
| "internalize (JNumber n) = reviver (JNumber n)"
| "internalize (JString s) = reviver (JString s)"
| "internalize_elements [] = []"
| "internalize_elements (v # arr) = internalize v # internalize_elements arr"
| "internalize_properties [] = []"
| "internalize_properties ((k, v) # obj) = (k, internalize v) # internalize_properties obj"

definition safeJsonParse :: "(jsstring \<Rightarrow> JsonValue option) \<Rightarrow> jsstring \<Rightarrow> error + JsonValue" where
  "safeJsonParse JSON_parse json =
     (case JSON_parse json of
        None \<Rightarrow> Inl SyntaxError
      | Some v \<Rightarrow> Inr (internalize v))"

section \<open>Notions of the specification\<close>

text \<open>
  The indices at which the pattern matches, in increasing order, and the string with
  the source word replaced at given match indices, everything else copied.
\<close>

definition match_positions :: "jsstring \<Rightarrow> nat list" where
  "match_positions str = filter (match_at str) [0..<Suc (length str)]"

fun subst_at :: "jsstring \<Rightarrow> nat \<Rightarrow> nat list \<Rightarrow> jsstring" where
  "subst_at str a [] = drop a str"
| "subst_at str a (p # ps) =
     take (p - a) (drop a str) @ TARGET_WORD @ subst_at str (p + length SOURCE_WORD) ps"

text \<open>
  The nesting depth of a value: the number of arrays and objects around its deepest
  value, the root being at depth 0. An empty container is a value without children.
\<close>

fun nesting_depth :: "JsonValue \<Rightarrow> nat"
  and nesting_depth_elements :: "JsonValue list \<Rightarrow> nat"
  and nesting_depth_properties :: "(jsstring \<times> JsonValue) list \<Rightarrow> nat"
where
  "nesting_depth (JArray arr) = nesting_depth_elements arr"
| "nesting_depth (JObject obj) = nesting_depth_properties obj"
| "nesting_depth JNull = 0"
| "nesting_depth (JBool b) = 0"
| "nesting_depth (JNumber n) = 0"
| "nesting_depth (JString s) = 0"
| "nesting_depth_elements [] = 0"
| "nesting_depth_elements (v # arr) = max (Suc (nesting_depth v)) (nesting_depth_elements arr)"
| "nesting_depth_properties [] = 0"
| "nesting_depth_properties ((k, v) # obj) =
     max (Suc (nesting_depth v)) (nesting_depth_properties obj)"

text \<open>The same depth, not counting what lies under a key of \<open>DANGEROUS_KEYS\<close>.\<close>

fun visited_depth :: "JsonValue \<Rightarrow> nat"
  and visited_depth_elements :: "JsonValue list \<Rightarrow> nat"
  and visited_depth_properties :: "(jsstring \<times> JsonValue) list \<Rightarrow> nat"
where
  "visited_depth (JArray arr) = visited_depth_elements arr"
| "visited_depth (JObject obj) = visited_depth_properties obj"
| "visited_depth JNull = 0"
| "visited_depth (JBool b) = 0"
| "visited_depth (JNumber n) = 0"
| "visited_depth (JString s) = 0"
| "visited_depth_elements [] = 0"
| "visited_depth_elements (v # arr) = max (Suc (visited_depth v)) (visited_depth_elements arr)"
| "visited_depth_properties [] = 0"
| "visited_depth_properties ((k, v) # obj) =
     (if k \<in> DANGEROUS_KEYS then visited_depth_properties obj
      else max (Suc (visited_depth v)) (visited_depth_properties obj))"

text \<open>A value with the entries under dangerous keys removed from every object.\<close>

fun strip_dangerous :: "JsonValue \<Rightarrow> JsonValue"
  and strip_dangerous_elements :: "JsonValue list \<Rightarrow> JsonValue list"
  and strip_dangerous_properties :: "(jsstring \<times> JsonValue) list \<Rightarrow> (jsstring \<times> JsonValue) list"
where
  "strip_dangerous (JArray arr) = JArray (strip_dangerous_elements arr)"
| "strip_dangerous (JObject obj) = JObject (strip_dangerous_properties obj)"
| "strip_dangerous JNull = JNull"
| "strip_dangerous (JBool b) = JBool b"
| "strip_dangerous (JNumber n) = JNumber n"
| "strip_dangerous (JString s) = JString s"
| "strip_dangerous_elements [] = []"
| "strip_dangerous_elements (v # arr) = strip_dangerous v # strip_dangerous_elements arr"
| "strip_dangerous_properties [] = []"
| "strip_dangerous_properties ((k, v) # obj) =
     (if k \<in> DANGEROUS_KEYS then strip_dangerous_properties obj
      else (k, strip_dangerous v) # strip_dangerous_properties obj)"

text \<open>No object of the value, at any level, has a key of \<open>DANGEROUS_KEYS\<close>.\<close>

fun no_dangerous :: "JsonValue \<Rightarrow> bool"
  and no_dangerous_elements :: "JsonValue list \<Rightarrow> bool"
  and no_dangerous_properties :: "(jsstring \<times> JsonValue) list \<Rightarrow> bool"
where
  "no_dangerous (JArray arr) = no_dangerous_elements arr"
| "no_dangerous (JObject obj) = no_dangerous_properties obj"
| "no_dangerous JNull = True"
| "no_dangerous (JBool b) = True"
| "no_dangerous (JNumber n) = True"
| "no_dangerous (JString s) = True"
| "no_dangerous_elements [] = True"
| "no_dangerous_elements (v # arr) = (no_dangerous v \<and> no_dangerous_elements arr)"
| "no_dangerous_properties [] = True"
| "no_dangerous_properties ((k, v) # obj) =
     (k \<notin> DANGEROUS_KEYS \<and> no_dangerous v \<and> no_dangerous_properties obj)"

text \<open>The number of matches of the pattern in the string values of a value.\<close>

fun occurrences :: "JsonValue \<Rightarrow> nat"
  and occurrences_elements :: "JsonValue list \<Rightarrow> nat"
  and occurrences_properties :: "(jsstring \<times> JsonValue) list \<Rightarrow> nat"
where
  "occurrences (JArray arr) = occurrences_elements arr"
| "occurrences (JObject obj) = occurrences_properties obj"
| "occurrences JNull = 0"
| "occurrences (JBool b) = 0"
| "occurrences (JNumber n) = 0"
| "occurrences (JString s) = length (match_positions s)"
| "occurrences_elements [] = 0"
| "occurrences_elements (v # arr) = occurrences v + occurrences_elements arr"
| "occurrences_properties [] = 0"
| "occurrences_properties ((k, v) # obj) = occurrences v + occurrences_properties obj"

text \<open>The entries of an object that \<open>traverseObject\<close> does not skip.\<close>

definition safe_entries :: "(jsstring \<times> JsonValue) list \<Rightarrow> (jsstring \<times> JsonValue) list" where
  "safe_entries obj = filter (\<lambda>(k, v). k \<notin> DANGEROUS_KEYS) obj"

section \<open>The scan of one string\<close>

declare replace_loop.simps [simp del]

lemma length_SOURCE_WORD: "length SOURCE_WORD = 3"
  by (simp add: SOURCE_WORD_def js_def)

lemma SOURCE_WORD_units: "SOURCE_WORD = [0x64, 0x6F, 0x67]"
  by (simp add: SOURCE_WORD_def js_def)

lemma TARGET_WORD_units: "TARGET_WORD = [0x63, 0x61, 0x74]"
  by (simp add: TARGET_WORD_def js_def)

lemma find_Some_set: "find P xs = Some x \<Longrightarrow> x \<in> set xs \<and> P x"
  by (induction xs) (auto split: if_splits)

lemma find_None_filter: "find P xs = None \<Longrightarrow> filter P xs = []"
  by (induction xs) (auto split: if_splits)

lemma find_upt_filter:
  "find P [i..<n] = Some m \<Longrightarrow> filter P [i..<n] = m # filter P [Suc m..<n]"
proof (induction "n - i" arbitrary: i)
  case 0
  then show ?case by simp
next
  case (Suc k)
  then have lt: "i < n" by simp
  then have unf: "[i..<n] = i # [Suc i..<n]" by (rule upt_conv_Cons)
  show ?case
  proof (cases "P i")
    case True
    with Suc.prems unf show ?thesis by simp
  next
    case False
    with Suc.prems unf have "find P [Suc i..<n] = Some m" by simp
    moreover from Suc.hyps(2) have "k = n - Suc i" by simp
    ultimately have "filter P [Suc i..<n] = m # filter P [Suc m..<n]"
      by (rule Suc.hyps(1)[rotated])
    with False unf show ?thesis by simp
  qed
qed

lemma match_at_units:
  assumes "match_at str m"
  shows "str ! m = 0x64" "str ! Suc m = 0x6F" "str ! Suc (Suc m) = 0x67" "m + 3 \<le> length str"
proof -
  from assms have "take (length SOURCE_WORD) (drop m str) = SOURCE_WORD"
    by (simp add: match_at_def)
  then have "take 3 (drop m str) = SOURCE_WORD"
    by (simp only: length_SOURCE_WORD)
  then have t: "take 3 (drop m str) = [0x64, 0x6F, 0x67]"
    by (simp only: SOURCE_WORD_units)
  then have "length (take 3 (drop m str)) = 3" by simp
  then show len: "m + 3 \<le> length str" by (simp add: min_def split: if_splits)
  have "\<And>j. j < 3 \<Longrightarrow> take 3 (drop m str) ! j = str ! (m + j)"
    using len by simp
  from this[of 0] this[of 1] this[of 2] t
  show "str ! m = 0x64" "str ! Suc m = 0x6F" "str ! Suc (Suc m) = 0x67" by simp_all
qed

text \<open>
  Every unit of the source word is alphanumeric, so no match starts inside another one
  or right behind it: the lookbehind fails there.
\<close>

lemma match_at_no_overlap:
  assumes "match_at str m"
  shows "\<not> match_at str (Suc m)" and "\<not> match_at str (Suc (Suc m))"
  using match_at_units[OF assms] by (simp_all add: match_at_def is_alnum_def)

lemma filter_after_match:
  assumes "match_at str m"
  shows "filter (match_at str) [Suc m..<Suc (length str)] =
         filter (match_at str) [m + 3..<Suc (length str)]"
proof -
  from match_at_units(4)[OF assms]
  have "Suc m < Suc (length str)" "Suc (Suc m) < Suc (length str)" by simp_all
  then have "[Suc m..<Suc (length str)] = Suc m # Suc (Suc m) # [m + 3..<Suc (length str)]"
    by (simp add: upt_conv_Cons numeral_3_eq_3 del: upt_Suc)
  with match_at_no_overlap[OF assms] show ?thesis by (simp del: upt_Suc)
qed

lemma replace_loop_subst:
  "replace_loop str ctx res lastIndex pat =
     (let ps = take (nat (limit ctx - count ctx)) (filter (match_at str) [pat..<Suc (length str)])
      in (res @ subst_at str lastIndex ps, ctx\<lparr>count := count ctx + int (length ps)\<rparr>))"
proof (induction str ctx res lastIndex pat rule: replace_loop.induct)
  case (1 str ctx res lastIndex pat)
  show ?case
  proof (cases "regexp_exec str pat")
    case None
    then have "filter (match_at str) [pat..<Suc (length str)] = []"
      unfolding regexp_exec_def by (rule find_None_filter)
    with None show ?thesis
      by (subst replace_loop.simps) (simp add: slice_from_def del: upt_Suc)
  next
    case (Some m)
    then have f: "filter (match_at str) [pat..<Suc (length str)] =
        m # filter (match_at str) [Suc m..<Suc (length str)]"
      unfolding regexp_exec_def by (rule find_upt_filter)
    from Some have m: "match_at str m"
      unfolding regexp_exec_def using find_Some_set by fastforce
    note f' = f[unfolded filter_after_match[OF m]]
    show ?thesis
    proof (cases "count ctx \<ge> limit ctx")
      case True
      with Some show ?thesis
        by (subst replace_loop.simps) (simp add: slice_from_def del: upt_Suc)
    next
      case False
      define k where "k = nat (limit ctx - (count ctx + 1))"
      with False have k: "nat (limit ctx - count ctx) = Suc k" "nat (limit ctx - (count ctx + 1)) = k"
        by simp_all
      from False have IH: "replace_loop str (ctx\<lparr>count := count ctx + 1\<rparr>)
             (res @ str_slice str lastIndex m @ TARGET_WORD) (m + 3) (m + 3) =
           (let ps = take k (filter (match_at str) [m + 3..<Suc (length str)])
            in ((res @ str_slice str lastIndex m @ TARGET_WORD) @ subst_at str (m + 3) ps,
                ctx\<lparr>count := count ctx + 1 + int (length ps)\<rparr>))"
        using "1.IH"[OF Some] by (simp add: k length_SOURCE_WORD del: upt_Suc)
      have "replace_loop str ctx res lastIndex pat =
          replace_loop str (ctx\<lparr>count := count ctx + 1\<rparr>)
             (res @ str_slice str lastIndex m @ TARGET_WORD) (m + 3) (m + 3)"
        using False Some by (subst replace_loop.simps) (simp add: length_SOURCE_WORD)
      with IH show ?thesis
        by (simp add: f' k Let_def str_slice_def length_SOURCE_WORD del: upt_Suc)
    qed
  qed
qed

lemma replaceInString_subst:
  "replaceInString str ctx =
     (let ps = take (nat (limit ctx - count ctx)) (match_positions str)
      in (subst_at str 0 ps, ctx\<lparr>count := count ctx + int (length ps)\<rparr>))"
  by (simp add: replaceInString_def replace_loop_subst match_positions_def Let_def del: upt_Suc)

lemma match_positions_SOURCE_WORD: "match_positions SOURCE_WORD = [0]"
  by (simp add: match_positions_def match_at_def SOURCE_WORD_units is_alnum_def)

lemma match_positions_suffixed:
  "match_positions (SOURCE_WORD @ [c]) = (if is_alnum c then [] else [0])"
  by (simp add: match_positions_def match_at_def SOURCE_WORD_units is_alnum_def)

lemma match_positions_prefixed:
  "match_positions (c # SOURCE_WORD) = (if is_alnum c then [] else [1])"
  by (simp add: match_positions_def match_at_def SOURCE_WORD_units is_alnum_def)

lemma replaceDogsWithCats_JString:
  "0 \<le> M \<Longrightarrow> replaceDogsWithCats (JString s) l M =
     (let ps = take (nat l) (match_positions s)
      in Inr \<lparr>result = JString (subst_at s 0 ps), replacements = int (length ps),
              limitReached = (l \<le> int (length ps))\<rparr>)"
  by (simp add: replaceDogsWithCats_def replaceInString_subst Let_def)

subsection \<open>Claims about one string\<close>

text \<open>
  C3. Within one string the matches of the source word are replaced from left to right,
  each one adding one to the count, and the scan stops when the count reaches the limit:
  exactly the first \<open>limit - count\<close> matches are replaced and everything else, later
  matches included, is copied as it is. For the string "dog dog dog dog dog" and limit 3
  the result is "cat cat cat dog dog" with 3 replacements and \<open>limitReached\<close> true.
\<close>

theorem replaceInString_left_to_right:
  "replaceInString str ctx =
     (let ps = take (nat (limit ctx - count ctx)) (match_positions str)
      in (subst_at str 0 ps, ctx\<lparr>count := count ctx + int (length ps)\<rparr>))
   \<and> replaceDogsWithCats (JString (js ''dog dog dog dog dog'')) 3 100 =
       Inr \<lparr>result = JString (js ''cat cat cat dog dog''), replacements = 3,
            limitReached = True\<rparr>"
proof
  show "replaceInString str ctx =
     (let ps = take (nat (limit ctx - count ctx)) (match_positions str)
      in (subst_at str 0 ps, ctx\<lparr>count := count ctx + int (length ps)\<rparr>))"
    by (rule replaceInString_subst)
  show "replaceDogsWithCats (JString (js ''dog dog dog dog dog'')) 3 100 =
       Inr \<lparr>result = JString (js ''cat cat cat dog dog''), replacements = 3,
            limitReached = True\<rparr>"
    by code_simp
qed

theorem replaceInString_left_to_right_witness:
  "replaceInString (js ''dog, dog and dog'') \<lparr>count = 4, limit = 6, depth = 1, maxDepth = 100\<rparr> =
     (js ''cat, cat and dog'', \<lparr>count = 6, limit = 6, depth = 1, maxDepth = 100\<rparr>)"
proof -
  have ps: "match_positions (js ''dog, dog and dog'') = [0, 5, 13]"
    by code_simp
  have s: "subst_at (js ''dog, dog and dog'') 0 [0, 5] = js ''cat, cat and dog''"
    by code_simp
  from replaceInString_left_to_right[of "js ''dog, dog and dog''"
      "\<lparr>count = 4, limit = 6, depth = 1, maxDepth = 100\<rparr>"]
  show ?thesis by (simp add: ps s del: subst_at.simps)
qed

text \<open>
  C4. Matching is exact, case-sensitive and whole-word. The string equal to the source
  word becomes the target word with one replacement, when the limit is at least 1. The
  source word with one ASCII alphanumeric unit before or after it is returned unchanged
  with no replacement. So are "Dog", "DOG" and "dOg".
\<close>

theorem exact_whole_word_match:
  "(1 \<le> l \<and> 1 \<le> M \<longrightarrow>
      replaceDogsWithCats (JString SOURCE_WORD) l M =
        Inr \<lparr>result = JString TARGET_WORD, replacements = 1, limitReached = (l \<le> 1)\<rparr>)
   \<and> (is_alnum c \<and> 1 \<le> M \<longrightarrow>
      replaceDogsWithCats (JString (SOURCE_WORD @ [c])) l M =
        Inr \<lparr>result = JString (SOURCE_WORD @ [c]), replacements = 0, limitReached = (l \<le> 0)\<rparr>
      \<and> replaceDogsWithCats (JString (c # SOURCE_WORD)) l M =
        Inr \<lparr>result = JString (c # SOURCE_WORD), replacements = 0, limitReached = (l \<le> 0)\<rparr>)
   \<and> (s \<in> {js ''Dog'', js ''DOG'', js ''dOg''} \<and> 1 \<le> M \<longrightarrow>
      replaceDogsWithCats (JString s) l M =
        Inr \<lparr>result = JString s, replacements = 0, limitReached = (l \<le> 0)\<rparr>)"
proof (intro conjI impI)
  assume "1 \<le> l \<and> 1 \<le> M"
  then have "take (nat l) [0::nat] = [0]" and "0 \<le> M"
    by (simp_all add: take_Cons')
  then show "replaceDogsWithCats (JString SOURCE_WORD) l M =
        Inr \<lparr>result = JString TARGET_WORD, replacements = 1, limitReached = (l \<le> 1)\<rparr>"
    by (simp add: replaceDogsWithCats_JString match_positions_SOURCE_WORD length_SOURCE_WORD)
next
  assume a: "is_alnum c \<and> 1 \<le> M"
  then show "replaceDogsWithCats (JString (SOURCE_WORD @ [c])) l M =
        Inr \<lparr>result = JString (SOURCE_WORD @ [c]), replacements = 0, limitReached = (l \<le> 0)\<rparr>"
    by (simp add: replaceDogsWithCats_JString match_positions_suffixed)
  from a show "replaceDogsWithCats (JString (c # SOURCE_WORD)) l M =
        Inr \<lparr>result = JString (c # SOURCE_WORD), replacements = 0, limitReached = (l \<le> 0)\<rparr>"
    by (simp add: replaceDogsWithCats_JString match_positions_prefixed)
next
  assume a: "s \<in> {js ''Dog'', js ''DOG'', js ''dOg''} \<and> 1 \<le> M"
  have "match_positions (js ''Dog'') = []" "match_positions (js ''DOG'') = []"
    "match_positions (js ''dOg'') = []"
    by code_simp+
  with a have "match_positions s = []" by auto
  with a show "replaceDogsWithCats (JString s) l M =
        Inr \<lparr>result = JString s, replacements = 0, limitReached = (l \<le> 0)\<rparr>"
    by (simp add: replaceDogsWithCats_JString)
qed

theorem exact_whole_word_match_witness:
  "replaceDogsWithCats (JString (js ''dog'')) 5 100 =
     Inr \<lparr>result = JString (js ''cat''), replacements = 1, limitReached = False\<rparr>
   \<and> replaceDogsWithCats (JString (js ''dogs'')) 5 100 =
     Inr \<lparr>result = JString (js ''dogs''), replacements = 0, limitReached = False\<rparr>
   \<and> replaceDogsWithCats (JString (js ''sdog'')) 5 100 =
     Inr \<lparr>result = JString (js ''sdog''), replacements = 0, limitReached = False\<rparr>
   \<and> replaceDogsWithCats (JString (js ''dOg'')) 5 100 =
     Inr \<lparr>result = JString (js ''dOg''), replacements = 0, limitReached = False\<rparr>"
proof -
  have c: "is_alnum 0x73" "js ''dogs'' = SOURCE_WORD @ [0x73]" "js ''sdog'' = 0x73 # SOURCE_WORD"
    "js ''dog'' = SOURCE_WORD" "js ''cat'' = TARGET_WORD"
    by (simp_all add: is_alnum_def SOURCE_WORD_def TARGET_WORD_def js_def)
  from exact_whole_word_match[of 5 100 "0x73" "js ''dOg''"]
  show ?thesis by (simp add: c)
qed




section \<open>The traversal\<close>

declare traverse.simps [simp del]

lemma traverse_over:
  "depth ctx > maxDepth ctx \<Longrightarrow> traverse v ctx = (Inl (DepthLimitExceededError (maxDepth ctx)), ctx)"
  by (simp add: traverse.simps)

lemma traverse_JNull: "\<not> depth ctx > maxDepth ctx \<Longrightarrow> traverse JNull ctx = (Inr JNull, ctx)"
  by (simp add: traverse.simps)

lemma traverse_JBool: "\<not> depth ctx > maxDepth ctx \<Longrightarrow> traverse (JBool b) ctx = (Inr (JBool b), ctx)"
  by (simp add: traverse.simps)

lemma traverse_JNumber: "\<not> depth ctx > maxDepth ctx \<Longrightarrow> traverse (JNumber n) ctx = (Inr (JNumber n), ctx)"
  by (simp add: traverse.simps)

lemma traverse_JString:
  "\<not> depth ctx > maxDepth ctx \<Longrightarrow>
   traverse (JString s) ctx = (Inr (JString (fst (replaceInString s ctx))), snd (replaceInString s ctx))"
  by (simp add: traverse.simps split: prod.splits)

lemma traverse_JArray:
  "\<not> depth ctx > maxDepth ctx \<Longrightarrow>
   traverse (JArray arr) ctx =
     (case traverseArray arr (ctx\<lparr>depth := depth ctx + 1\<rparr>) of
        (Inl e, ctx') \<Rightarrow> (Inl e, ctx'\<lparr>depth := depth ctx' - 1\<rparr>)
      | (Inr vs, ctx') \<Rightarrow> (Inr (JArray vs), ctx'\<lparr>depth := depth ctx' - 1\<rparr>))"
  by (simp add: traverse.simps)

lemma traverse_JObject:
  "\<not> depth ctx > maxDepth ctx \<Longrightarrow>
   traverse (JObject obj) ctx =
     (case traverseObject obj (ctx\<lparr>depth := depth ctx + 1\<rparr>) of
        (Inl e, ctx') \<Rightarrow> (Inl e, ctx'\<lparr>depth := depth ctx' - 1\<rparr>)
      | (Inr kvs, ctx') \<Rightarrow> (Inr (JObject kvs), ctx'\<lparr>depth := depth ctx' - 1\<rparr>))"
  by (simp add: traverse.simps)

lemmas traverse_cases = traverse_JNull traverse_JBool traverse_JNumber traverse_JString
  traverse_JArray traverse_JObject

lemma replaceInString_frame:
  "limit (snd (replaceInString s ctx)) = limit ctx"
  "maxDepth (snd (replaceInString s ctx)) = maxDepth ctx"
  "depth (snd (replaceInString s ctx)) = depth ctx"
  "count ctx \<le> count (snd (replaceInString s ctx))"
  "count ctx \<le> limit ctx \<Longrightarrow> count (snd (replaceInString s ctx)) \<le> limit ctx"
  by (simp_all add: replaceInString_subst Let_def)

lemma traverse_frame:
  shows "limit (snd (traverse v ctx)) = limit ctx \<and> maxDepth (snd (traverse v ctx)) = maxDepth ctx \<and>
         depth (snd (traverse v ctx)) = depth ctx"
    and "limit (snd (traverseArray arr ctx)) = limit ctx \<and>
         maxDepth (snd (traverseArray arr ctx)) = maxDepth ctx \<and>
         depth (snd (traverseArray arr ctx)) = depth ctx"
    and "limit (snd (traverseObject obj ctx)) = limit ctx \<and>
         maxDepth (snd (traverseObject obj ctx)) = maxDepth ctx \<and>
         depth (snd (traverseObject obj ctx)) = depth ctx"
proof (induction v ctx and arr ctx and obj ctx rule: traverse_traverseArray_traverseObject.induct)
  case (1 "value" ctx)
  show ?case
  proof (cases "depth ctx > maxDepth ctx")
    case True
    then show ?thesis by (simp add: traverse_over)
  next
    case False
    show ?thesis
    proof (cases "value")
      case (JArray arr)
      with False "1.IH"(1)[OF False JArray] show ?thesis
        by (auto simp: traverse_JArray split: prod.splits sum.splits)
    next
      case (JObject obj)
      with False "1.IH"(2)[OF False JObject] show ?thesis
        by (auto simp: traverse_JObject split: prod.splits sum.splits)
    qed (use False in \<open>simp_all add: traverse_cases replaceInString_frame\<close>)
  qed
next
  case (2 ctx)
  show ?case by simp
next
  case (3 item arr ctx)
  obtain x y where t: "traverse item ctx = (x, y)" by (cases "traverse item ctx")
  show ?case
  proof (cases x)
    case (Inl e)
    with t "3.IH"(1) show ?thesis by simp
  next
    case (Inr b)
    with t "3.IH"(1) "3.IH"(2)[OF t[symmetric] Inr] show ?thesis
      by (auto split: prod.splits sum.splits)
  qed
next
  case (4 ctx)
  show ?case by simp
next
  case (5 key v obj ctx)
  show ?case
  proof (cases "key \<in> DANGEROUS_KEYS")
    case True
    with "5.IH"(1) show ?thesis by simp
  next
    case False
    obtain x y where t: "traverse v ctx = (x, y)" by (cases "traverse v ctx")
    show ?thesis
    proof (cases x)
      case (Inl e)
      with t False "5.IH"(2) show ?thesis by simp
    next
      case (Inr b)
      with t False "5.IH"(2) "5.IH"(3)[OF False t[symmetric] Inr] show ?thesis
        by (auto split: prod.splits sum.splits)
    qed
  qed
qed

lemma traverse_count:
  shows "count ctx \<le> count (snd (traverse v ctx)) \<and>
         (count ctx \<le> limit ctx \<longrightarrow> count (snd (traverse v ctx)) \<le> limit ctx)"
    and "count ctx \<le> count (snd (traverseArray arr ctx)) \<and>
         (count ctx \<le> limit ctx \<longrightarrow> count (snd (traverseArray arr ctx)) \<le> limit ctx)"
    and "count ctx \<le> count (snd (traverseObject obj ctx)) \<and>
         (count ctx \<le> limit ctx \<longrightarrow> count (snd (traverseObject obj ctx)) \<le> limit ctx)"
proof (induction v ctx and arr ctx and obj ctx rule: traverse_traverseArray_traverseObject.induct)
  case (1 "value" ctx)
  show ?case
  proof (cases "depth ctx > maxDepth ctx")
    case True
    then show ?thesis by (simp add: traverse_over)
  next
    case False
    show ?thesis
    proof (cases "value")
      case (JArray arr)
      with False "1.IH"(1)[OF False JArray] show ?thesis
        by (auto simp: traverse_JArray split: prod.splits sum.splits)
    next
      case (JObject obj)
      with False "1.IH"(2)[OF False JObject] show ?thesis
        by (auto simp: traverse_JObject split: prod.splits sum.splits)
    qed (use False in \<open>simp_all add: traverse_cases replaceInString_frame\<close>)
  qed
next
  case (2 ctx)
  show ?case by simp
next
  case (3 item arr ctx)
  obtain x y where t: "traverse item ctx = (x, y)" by (cases "traverse item ctx")
  from traverse_frame(1)[of item ctx] t have l: "limit y = limit ctx" by simp
  show ?case
  proof (cases x)
    case (Inl e)
    with t "3.IH"(1) show ?thesis by simp
  next
    case (Inr b)
    with t l "3.IH"(1) "3.IH"(2)[OF t[symmetric] Inr] show ?thesis
      by (auto split: prod.splits sum.splits)
  qed
next
  case (4 ctx)
  show ?case by simp
next
  case (5 key v obj ctx)
  show ?case
  proof (cases "key \<in> DANGEROUS_KEYS")
    case True
    with "5.IH"(1) show ?thesis by simp
  next
    case False
    obtain x y where t: "traverse v ctx = (x, y)" by (cases "traverse v ctx")
    from traverse_frame(1)[of v ctx] t have l: "limit y = limit ctx" by simp
    show ?thesis
    proof (cases x)
      case (Inl e)
      with t False "5.IH"(2) show ?thesis by simp
    next
      case (Inr b)
      with t l False "5.IH"(2) "5.IH"(3)[OF False t[symmetric] Inr] show ?thesis
        by (auto split: prod.splits sum.splits)
    qed
  qed
qed


subsection \<open>Claims about the context\<close>

text \<open>
  C1. For every input, every limit \<open>l \<ge> 0\<close> and every \<open>maxDepth\<close> \<open>M \<ge> 1\<close>: if
  \<open>replaceDogsWithCats\<close> returns a result, its \<open>replacements\<close> lie between 0 and the
  limit, and \<open>limitReached\<close> is \<open>replacements \<ge> limit\<close>. The count never exceeds the
  limit, also when one string has more matches than budget is left.
\<close>

theorem replacements_within_limit:
  assumes "0 \<le> l" and "1 \<le> M" and "replaceDogsWithCats v l M = Inr r"
  shows "0 \<le> replacements r \<and> replacements r \<le> l \<and> limitReached r = (replacements r \<ge> l)"
proof -
  define ctx where "ctx = \<lparr>count = 0, limit = l, depth = 0, maxDepth = M\<rparr>"
  obtain x c where t: "traverse v ctx = (x, c)" by (cases "traverse v ctx")
  from traverse_count(1)[of ctx v] traverse_frame(1)[of v ctx] t assms(1)
  have c: "0 \<le> count c" "count c \<le> l" "limit c = l"
    by (simp_all add: ctx_def)
  from assms(3) t have "r = \<lparr>result = result r, replacements = count c, limitReached = (count c \<ge> limit c)\<rparr>"
    by (auto simp: replaceDogsWithCats_def ctx_def split: sum.splits)
  then have "replacements r = count c" "limitReached r = (count c \<ge> limit c)"
    by (metis ReplacementResult.select_convs(2), metis ReplacementResult.select_convs(3))
  with c show ?thesis by simp
qed

theorem replacements_within_limit_witness:
  "(0::int) \<le> 2 \<and> (1::int) \<le> 100
   \<and> replaceDogsWithCats (JArray [JString (js ''dog''), JString (js ''dog dog dog'')]) 2 100 =
       Inr \<lparr>result = JArray [JString (js ''cat''), JString (js ''cat dog dog'')],
            replacements = 2, limitReached = True\<rparr>
   \<and> replacements \<lparr>result = JArray [JString (js ''cat''), JString (js ''cat dog dog'')],
            replacements = 2, limitReached = True\<rparr> \<le> 2"
proof -
  have e: "replaceDogsWithCats (JArray [JString (js ''dog''), JString (js ''dog dog dog'')]) 2 100 =
       Inr \<lparr>result = JArray [JString (js ''cat''), JString (js ''cat dog dog'')],
            replacements = 2, limitReached = True\<rparr>"
    by code_simp
  from replacements_within_limit[OF _ _ e] e show ?thesis by simp
qed

text \<open>
  C9. Whatever \<open>traverse\<close> does on a value, return a value or throw
  \<open>DepthLimitExceededError\<close> partway through the children of a container, it leaves
  the \<open>depth\<close> field of the context at the value it had when the call was entered.
\<close>

theorem depth_restored:
  assumes "traverse v c = (outcome, c')"
  shows "depth c' = depth c"
  using traverse_frame(1)[of v c] assms by simp

theorem depth_restored_witness:
  "traverse (JArray [JString (js ''dog''), JArray [JArray [JNull]], JString (js ''dog'')])
      \<lparr>count = 0, limit = 5, depth = 0, maxDepth = 1\<rparr> =
     (Inl (DepthLimitExceededError 1), \<lparr>count = 1, limit = 5, depth = 0, maxDepth = 1\<rparr>)
   \<and> depth \<lparr>count = 1, limit = 5, depth = 0, maxDepth = 1\<rparr> =
     depth \<lparr>count = 0, limit = 5, depth = 0, maxDepth = 1\<rparr>"
proof -
  have e: "traverse (JArray [JString (js ''dog''), JArray [JArray [JNull]], JString (js ''dog'')])
      \<lparr>count = 0, limit = 5, depth = 0, maxDepth = 1\<rparr> =
     (Inl (DepthLimitExceededError 1), \<lparr>count = 1, limit = 5, depth = 0, maxDepth = 1\<rparr>)"
    by code_simp
  from depth_restored[OF e] e show ?thesis by simp
qed

subsection \<open>When the traversal throws\<close>

text \<open>
  \<open>traverse\<close> throws exactly when the depth of the context plus the depth of the visited
  part of the value exceeds \<open>maxDepth\<close>. The loops over the children run one level
  below the container, which has passed the check itself.
\<close>

lemma traverse_depth:
  shows "(maxDepth ctx < depth ctx + int (visited_depth v) \<longrightarrow>
            fst (traverse v ctx) = Inl (DepthLimitExceededError (maxDepth ctx))) \<and>
         (depth ctx + int (visited_depth v) \<le> maxDepth ctx \<longrightarrow> \<not> isl (fst (traverse v ctx)))"
    and "depth ctx - 1 \<le> maxDepth ctx \<longrightarrow>
         (maxDepth ctx < depth ctx - 1 + int (visited_depth_elements arr) \<longrightarrow>
            fst (traverseArray arr ctx) = Inl (DepthLimitExceededError (maxDepth ctx))) \<and>
         (depth ctx - 1 + int (visited_depth_elements arr) \<le> maxDepth ctx \<longrightarrow>
            \<not> isl (fst (traverseArray arr ctx)))"
    and "depth ctx - 1 \<le> maxDepth ctx \<longrightarrow>
         (maxDepth ctx < depth ctx - 1 + int (visited_depth_properties obj) \<longrightarrow>
            fst (traverseObject obj ctx) = Inl (DepthLimitExceededError (maxDepth ctx))) \<and>
         (depth ctx - 1 + int (visited_depth_properties obj) \<le> maxDepth ctx \<longrightarrow>
            \<not> isl (fst (traverseObject obj ctx)))"
proof (induction v ctx and arr ctx and obj ctx rule: traverse_traverseArray_traverseObject.induct)
  case (1 "value" ctx)
  show ?case
  proof (cases "depth ctx > maxDepth ctx")
    case True
    then show ?thesis by (simp add: traverse_over)
  next
    case False
    show ?thesis
    proof (cases "value")
      case (JArray arr)
      with False "1.IH"(1)[OF False JArray] show ?thesis
        by (auto simp: traverse_JArray split: prod.splits sum.splits)
    next
      case (JObject obj)
      with False "1.IH"(2)[OF False JObject] show ?thesis
        by (auto simp: traverse_JObject split: prod.splits sum.splits)
    qed (use False in \<open>simp_all add: traverse_cases\<close>)
  qed
next
  case (2 ctx)
  show ?case by simp
next
  case (3 item arr ctx)
  obtain x y where t: "traverse item ctx = (x, y)" by (cases "traverse item ctx")
  from traverse_frame(1)[of item ctx] t
  have fr: "maxDepth y = maxDepth ctx" "depth y = depth ctx" by simp_all
  show ?case
  proof (cases x)
    case (Inl e)
    with t "3.IH"(1) show ?thesis by (auto simp: isl_def)
  next
    case (Inr b)
    with t "3.IH"(1) have ok: "depth ctx + int (visited_depth item) \<le> maxDepth ctx"
      by (cases "depth ctx + int (visited_depth item) \<le> maxDepth ctx") auto
    from Inr t fr ok "3.IH"(2)[OF t[symmetric] Inr] show ?thesis
      by (auto simp: max_def split: prod.splits sum.splits)
  qed
next
  case (4 ctx)
  show ?case by simp
next
  case (5 key v obj ctx)
  show ?case
  proof (cases "key \<in> DANGEROUS_KEYS")
    case True
    with "5.IH"(1) show ?thesis by simp
  next
    case False
    obtain x y where t: "traverse v ctx = (x, y)" by (cases "traverse v ctx")
    from traverse_frame(1)[of v ctx] t
    have fr: "maxDepth y = maxDepth ctx" "depth y = depth ctx" by simp_all
    show ?thesis
    proof (cases x)
      case (Inl e)
      with t False "5.IH"(2) show ?thesis by (auto simp: isl_def)
    next
      case (Inr b)
      with t "5.IH"(2)[OF False] have ok: "depth ctx + int (visited_depth v) \<le> maxDepth ctx"
        by (cases "depth ctx + int (visited_depth v) \<le> maxDepth ctx") auto
      from Inr t fr ok False "5.IH"(3)[OF False t[symmetric] Inr] show ?thesis
        by (auto simp: max_def split: prod.splits sum.splits)
    qed
  qed
qed


lemma visited_le_nesting:
  shows "visited_depth v \<le> nesting_depth v"
    and "visited_depth_elements arr \<le> nesting_depth_elements arr"
    and "visited_depth_properties obj \<le> nesting_depth_properties obj"
  by (induction v and arr and obj
      rule: visited_depth_visited_depth_elements_visited_depth_properties.induct) auto

lemma visited_eq_nesting:
  shows "no_dangerous v \<Longrightarrow> visited_depth v = nesting_depth v"
    and "no_dangerous_elements arr \<Longrightarrow> visited_depth_elements arr = nesting_depth_elements arr"
    and "no_dangerous_properties obj \<Longrightarrow>
         visited_depth_properties obj = nesting_depth_properties obj"
  by (induction v and arr and obj
      rule: visited_depth_visited_depth_elements_visited_depth_properties.induct) auto

lemma replaceDogsWithCats_depth:
  "replaceDogsWithCats v l M =
     (if M < int (visited_depth v) then Inl (DepthLimitExceededError M)
      else Inr \<lparr>result = projr (fst (traverse v \<lparr>count = 0, limit = l, depth = 0, maxDepth = M\<rparr>)),
               replacements = count (snd (traverse v \<lparr>count = 0, limit = l, depth = 0, maxDepth = M\<rparr>)),
               limitReached = (l \<le> count (snd (traverse v \<lparr>count = 0, limit = l, depth = 0, maxDepth = M\<rparr>)))\<rparr>)"
proof -
  define ctx where "ctx = \<lparr>count = 0, limit = l, depth = 0, maxDepth = M\<rparr>"
  obtain x c where t: "traverse v ctx = (x, c)" by (cases "traverse v ctx")
  from traverse_frame(1)[of v ctx] t have lim: "limit c = l" by (simp add: ctx_def)
  show ?thesis
  proof (cases "M < int (visited_depth v)")
    case True
    with traverse_depth(1)[of ctx v] t have "x = Inl (DepthLimitExceededError M)"
      by (simp add: ctx_def)
    with True t show ?thesis
      by (simp add: replaceDogsWithCats_def ctx_def[symmetric])
  next
    case False
    with traverse_depth(1)[of ctx v] t have "\<not> isl x"
      by (simp add: ctx_def)
    then obtain r where "x = Inr r" by (cases x) auto
    with False t lim show ?thesis
      by (simp add: replaceDogsWithCats_def ctx_def[symmetric])
  qed
qed

text \<open>
  C2, amended. Let \<open>D\<close> be the depth of the deepest value of the input that does not lie
  under a key of \<open>DANGEROUS_KEYS\<close>, the root being at depth 0. \<open>replaceDogsWithCats\<close>
  returns a result when \<open>D \<le> M\<close> and throws \<open>DepthLimitExceededError\<close> carrying \<open>M\<close>
  when \<open>D > M\<close>; a throw returns no result at all. For an input without dangerous keys
  \<open>D\<close> is the nesting depth of the whole input.
\<close>

theorem depth_limit_enforced:
  "(int (visited_depth v) \<le> M \<longrightarrow> (\<exists>r. replaceDogsWithCats v l M = Inr r))
   \<and> (M < int (visited_depth v) \<longrightarrow> replaceDogsWithCats v l M = Inl (DepthLimitExceededError M))
   \<and> (no_dangerous v \<longrightarrow> visited_depth v = nesting_depth v)"
  by (simp add: replaceDogsWithCats_depth visited_eq_nesting(1))

theorem depth_limit_enforced_witness:
  "no_dangerous (JArray [JObject [(js ''a'', JArray [JString (js ''dog'')])]])
   \<and> nesting_depth (JArray [JObject [(js ''a'', JArray [JString (js ''dog'')])]]) = 3
   \<and> visited_depth (JArray [JObject [(js ''a'', JArray [JString (js ''dog'')])]]) = 3
   \<and> replaceDogsWithCats (JArray [JObject [(js ''a'', JArray [JString (js ''dog'')])]]) 10 3 =
       Inr \<lparr>result = JArray [JObject [(js ''a'', JArray [JString (js ''cat'')])]],
            replacements = 1, limitReached = False\<rparr>
   \<and> replaceDogsWithCats (JArray [JObject [(js ''a'', JArray [JString (js ''dog'')])]]) 10 2 =
       Inl (DepthLimitExceededError 2)"
proof -
  have n: "no_dangerous (JArray [JObject [(js ''a'', JArray [JString (js ''dog'')])]])"
    by code_simp
  have d: "nesting_depth (JArray [JObject [(js ''a'', JArray [JString (js ''dog'')])]]) = 3"
    by code_simp
  have e: "replaceDogsWithCats (JArray [JObject [(js ''a'', JArray [JString (js ''dog'')])]]) 10 3 =
       Inr \<lparr>result = JArray [JObject [(js ''a'', JArray [JString (js ''cat'')])]],
            replacements = 1, limitReached = False\<rparr>"
    by code_simp
  from depth_limit_enforced[of "JArray [JObject [(js ''a'', JArray [JString (js ''dog'')])]]" 2 10]
    depth_limit_enforced[of "JArray [JObject [(js ''a'', JArray [JString (js ''dog'')])]]" 3 10]
    n d e
  show ?thesis by simp
qed

text \<open>
  C2 as stated fails: the value under \<open>__proto__\<close> sits below 3 containers, which is
  more than \<open>maxDepth = 1\<close>, and the call returns a result, because \<open>traverseObject\<close>
  skips the entry without descending into it.
\<close>

theorem depth_limit_counterexample:
  "int (nesting_depth (JObject [(js ''__proto__'', JArray [JArray [JNull]])])) > 1
   \<and> replaceDogsWithCats (JObject [(js ''__proto__'', JArray [JArray [JNull]])]) 10 1 =
       Inr \<lparr>result = JObject [], replacements = 0, limitReached = False\<rparr>
   \<and> replaceDogsWithCats (JObject [(js ''__proto__'', JArray [JArray [JNull]])]) 10 1 \<noteq>
       Inl (DepthLimitExceededError 1)"
proof -
  have d: "nesting_depth (JObject [(js ''__proto__'', JArray [JArray [JNull]])]) = 3"
    by code_simp
  have e: "replaceDogsWithCats (JObject [(js ''__proto__'', JArray [JArray [JNull]])]) 10 1 =
       Inr \<lparr>result = JObject [], replacements = 0, limitReached = False\<rparr>"
    by code_simp
  from d e show ?thesis by simp
qed


subsection \<open>Dangerous keys and traversals that replace nothing\<close>

lemma safe_entries_simps:
  "safe_entries [] = []"
  "safe_entries ((k, v) # obj) =
     (if k \<in> DANGEROUS_KEYS then safe_entries obj else (k, v) # safe_entries obj)"
  by (simp_all add: safe_entries_def)

lemma traverseObject_safe_entries:
  "traverseObject obj ctx =
     (case traverseArray (map snd (safe_entries obj)) ctx of
        (Inl e, ctx') \<Rightarrow> (Inl e, ctx')
      | (Inr vs, ctx') \<Rightarrow> (Inr (zip (map fst (safe_entries obj)) vs), ctx'))"
proof (induction obj arbitrary: ctx)
  case Nil
  show ?case by (simp add: safe_entries_simps)
next
  case (Cons kv obj)
  obtain k v where kv: "kv = (k, v)" by (cases kv)
  show ?case
  proof (cases "k \<in> DANGEROUS_KEYS")
    case True
    then have s: "safe_entries (kv # obj) = safe_entries obj"
      by (simp add: kv safe_entries_simps)
    show ?thesis unfolding s using True Cons.IH[of ctx] kv by simp
  next
    case False
    then have s: "safe_entries (kv # obj) = (k, v) # safe_entries obj"
      by (simp add: kv safe_entries_simps)
    obtain x y where t: "traverse v ctx = (x, y)" by (cases "traverse v ctx")
    show ?thesis
    proof (cases x)
      case (Inl e)
      show ?thesis unfolding s using Inl t False kv by simp
    next
      case (Inr b)
      obtain x' y' where t': "traverseArray (map snd (safe_entries obj)) y = (x', y')"
        by (cases "traverseArray (map snd (safe_entries obj)) y")
      show ?thesis unfolding s using t' Inr t False kv Cons.IH[of y]
        by (cases x') simp_all
    qed
  qed
qed

lemma traverseArray_length:
  "traverseArray arr ctx = (Inr vs, c) \<Longrightarrow> length vs = length arr"
  by (induction arr arbitrary: ctx vs c) (auto split: prod.splits sum.splits)

lemma safe_entries_keys:
  "map fst (safe_entries obj) = filter (\<lambda>k. k \<notin> DANGEROUS_KEYS) (map fst obj)"
  by (induction obj) (auto simp: safe_entries_def)

lemma traverse_strip:
  shows "traverse (strip_dangerous v) ctx = traverse v ctx"
    and "traverseArray (strip_dangerous_elements arr) ctx = traverseArray arr ctx"
    and "traverseObject (strip_dangerous_properties obj) ctx = traverseObject obj ctx"
proof (induction v ctx and arr ctx and obj ctx rule: traverse_traverseArray_traverseObject.induct)
  case (1 "value" ctx)
  show ?case
  proof (cases "depth ctx > maxDepth ctx")
    case True
    then show ?thesis by (simp add: traverse_over)
  next
    case False
    show ?thesis
    proof (cases "value")
      case (JArray arr)
      with False "1.IH"(1)[OF False JArray] show ?thesis
        by (simp add: traverse_JArray)
    next
      case (JObject obj)
      with False "1.IH"(2)[OF False JObject] show ?thesis
        by (simp add: traverse_JObject)
    qed simp_all
  qed
next
  case (2 ctx)
  show ?case by simp
next
  case (3 item arr ctx)
  obtain x y where t: "traverse item ctx = (x, y)" by (cases "traverse item ctx")
  show ?case
  proof (cases x)
    case (Inl e)
    with t "3.IH"(1) show ?thesis by simp
  next
    case (Inr b)
    with t "3.IH"(1) "3.IH"(2)[OF t[symmetric] Inr] show ?thesis by simp
  qed
next
  case (4 ctx)
  show ?case by simp
next
  case (5 key v obj ctx)
  show ?case
  proof (cases "key \<in> DANGEROUS_KEYS")
    case True
    with "5.IH"(1) show ?thesis by simp
  next
    case False
    obtain x y where t: "traverse v ctx = (x, y)" by (cases "traverse v ctx")
    show ?thesis
    proof (cases x)
      case (Inl e)
      with t False "5.IH"(2) show ?thesis by simp
    next
      case (Inr b)
      with t False "5.IH"(2) "5.IH"(3)[OF False t[symmetric] Inr] show ?thesis by simp
    qed
  qed
qed

lemma traverse_no_dangerous:
  shows "traverse v ctx = (Inr r, c) \<Longrightarrow> no_dangerous r"
    and "traverseArray arr ctx = (Inr rs, c) \<Longrightarrow> no_dangerous_elements rs"
    and "traverseObject obj ctx = (Inr kvs, c) \<Longrightarrow> no_dangerous_properties kvs"
proof (induction v ctx and arr ctx and obj ctx arbitrary: r c and rs c and kvs c
    rule: traverse_traverseArray_traverseObject.induct)
  case (1 "value" ctx)
  from "1.prems" have False: "\<not> depth ctx > maxDepth ctx"
    by (auto simp: traverse_over)
  show ?case
  proof (cases "value")
    case (JArray arr)
    with False "1.IH"(1)[OF False JArray] "1.prems" show ?thesis
      by (auto simp: traverse_JArray split: prod.splits sum.splits)
  next
    case (JObject obj)
    with False "1.IH"(2)[OF False JObject] "1.prems" show ?thesis
      by (auto simp: traverse_JObject split: prod.splits sum.splits)
  qed (use False "1.prems" in \<open>auto simp: traverse_cases\<close>)
next
  case (2 ctx)
  then show ?case by simp
next
  case (3 item arr ctx)
  from "3.prems" "3.IH"(1) "3.IH"(2) show ?case
    by (auto split: prod.splits sum.splits)
next
  case (4 ctx)
  then show ?case by simp
next
  case (5 key v obj ctx)
  show ?case
  proof (cases "key \<in> DANGEROUS_KEYS")
    case True
    with "5.IH"(1) "5.prems" show ?thesis by simp
  next
    case False
    with "5.prems" "5.IH"(2) "5.IH"(3) show ?thesis
      by (auto split: prod.splits sum.splits)
  qed
qed

lemma strip_dangerous_id:
  shows "no_dangerous v \<Longrightarrow> strip_dangerous v = v"
    and "no_dangerous_elements arr \<Longrightarrow> strip_dangerous_elements arr = arr"
    and "no_dangerous_properties obj \<Longrightarrow> strip_dangerous_properties obj = obj"
  by (induction v and arr and obj
      rule: strip_dangerous_strip_dangerous_elements_strip_dangerous_properties.induct) auto

lemma replaceInString_noop:
  "limit ctx \<le> count ctx \<or> match_positions s = [] \<Longrightarrow> replaceInString s ctx = (s, ctx)"
  by (auto simp: replaceInString_subst)

lemma traverse_noop:
  shows "limit ctx \<le> count ctx \<or> occurrences v = 0 \<Longrightarrow>
         depth ctx + int (visited_depth v) \<le> maxDepth ctx \<Longrightarrow>
         traverse v ctx = (Inr (strip_dangerous v), ctx)"
    and "limit ctx \<le> count ctx \<or> occurrences_elements arr = 0 \<Longrightarrow>
         depth ctx - 1 + int (visited_depth_elements arr) \<le> maxDepth ctx \<Longrightarrow>
         traverseArray arr ctx = (Inr (strip_dangerous_elements arr), ctx)"
    and "limit ctx \<le> count ctx \<or> occurrences_properties obj = 0 \<Longrightarrow>
         depth ctx - 1 + int (visited_depth_properties obj) \<le> maxDepth ctx \<Longrightarrow>
         traverseObject obj ctx = (Inr (strip_dangerous_properties obj), ctx)"
proof (induction v ctx and arr ctx and obj ctx rule: traverse_traverseArray_traverseObject.induct)
  case (1 "value" ctx)
  from "1.prems"(2) have False: "\<not> depth ctx > maxDepth ctx" by simp
  show ?case
  proof (cases "value")
    case (JArray arr)
    with False "1.IH"(1)[OF False JArray] "1.prems" show ?thesis
      by (simp add: traverse_JArray)
  next
    case (JObject obj)
    with False "1.IH"(2)[OF False JObject] "1.prems" show ?thesis
      by (simp add: traverse_JObject)
  next
    case (JString s)
    with False "1.prems" show ?thesis
      by (auto simp: traverse_JString replaceInString_noop)
  qed (use False in \<open>simp_all add: traverse_cases\<close>)
next
  case (2 ctx)
  show ?case by simp
next
  case (3 item arr ctx)
  from "3.prems" have a: "limit ctx \<le> count ctx \<or> occurrences item = 0"
    "depth ctx + int (visited_depth item) \<le> maxDepth ctx"
    "limit ctx \<le> count ctx \<or> occurrences_elements arr = 0"
    "depth ctx - 1 + int (visited_depth_elements arr) \<le> maxDepth ctx"
    by auto
  from "3.IH"(1)[OF a(1,2)] have t: "traverse item ctx = (Inr (strip_dangerous item), ctx)" .
  from "3.IH"(2)[OF t[symmetric] refl a(3,4)] t show ?case by simp
next
  case (4 ctx)
  show ?case by simp
next
  case (5 key v obj ctx)
  show ?case
  proof (cases "key \<in> DANGEROUS_KEYS")
    case True
    with "5.prems" have a: "limit ctx \<le> count ctx \<or> occurrences_properties obj = 0"
      "depth ctx - 1 + int (visited_depth_properties obj) \<le> maxDepth ctx"
      by auto
    from "5.IH"(1)[OF True a] True show ?thesis by simp
  next
    case False
    with "5.prems" have a: "limit ctx \<le> count ctx \<or> occurrences v = 0"
      "depth ctx + int (visited_depth v) \<le> maxDepth ctx"
      "limit ctx \<le> count ctx \<or> occurrences_properties obj = 0"
      "depth ctx - 1 + int (visited_depth_properties obj) \<le> maxDepth ctx"
      by auto
    from "5.IH"(2)[OF False a(1,2)] have t: "traverse v ctx = (Inr (strip_dangerous v), ctx)" .
    from "5.IH"(3)[OF False t[symmetric] refl a(3,4)] t False show ?thesis by simp
  qed
qed

subsection \<open>The reviver\<close>

lemma safe_filter_no_dangerous:
  "list_all (\<lambda>(k, v). no_dangerous v) xs \<Longrightarrow>
   no_dangerous_properties (filter (\<lambda>(k, v). k \<notin> DANGEROUS_KEYS) xs)"
  by (induction xs) auto

lemma internalize_no_dangerous:
  shows "no_dangerous (internalize v)"
    and "no_dangerous_elements (internalize_elements arr)"
    and "list_all (\<lambda>(k, v). no_dangerous v) (internalize_properties obj)"
  by (induction v and arr and obj
      rule: internalize_internalize_elements_internalize_properties.induct)
     (simp_all add: reviver_def safe_filter_no_dangerous)


subsection \<open>Claims about dangerous keys, the parser and traversals without replacement\<close>

text \<open>
  C5. \<open>traverseObject\<close> drops every entry whose key is in \<open>DANGEROUS_KEYS\<close>: its
  outcome and its context, the count included, are those of traversing the values of
  the other entries in order, and the object returned pairs the other keys, in their
  order, with these transformed values. For the whole call: the outcome is the same as
  for the input with all dangerous entries removed, so no match under a dangerous key
  is counted, and no object of a returned result has a dangerous key.
\<close>

theorem dangerous_keys_dropped:
  "traverseObject obj ctx =
     (case traverseArray (map snd (safe_entries obj)) ctx of
        (Inl e, ctx') \<Rightarrow> (Inl e, ctx')
      | (Inr vs, ctx') \<Rightarrow> (Inr (zip (map fst (safe_entries obj)) vs), ctx'))
   \<and> (traverseObject obj ctx = (Inr kvs, ctx'') \<longrightarrow>
        map fst kvs = filter (\<lambda>k. k \<notin> DANGEROUS_KEYS) (map fst obj))
   \<and> replaceDogsWithCats input l M = replaceDogsWithCats (strip_dangerous input) l M
   \<and> (replaceDogsWithCats input l M = Inr r \<longrightarrow> no_dangerous (result r))"
proof (intro conjI impI)
  show "traverseObject obj ctx =
     (case traverseArray (map snd (safe_entries obj)) ctx of
        (Inl e, ctx') \<Rightarrow> (Inl e, ctx')
      | (Inr vs, ctx') \<Rightarrow> (Inr (zip (map fst (safe_entries obj)) vs), ctx'))"
    by (rule traverseObject_safe_entries)
next
  assume a: "traverseObject obj ctx = (Inr kvs, ctx'')"
  obtain x y where t: "traverseArray (map snd (safe_entries obj)) ctx = (x, y)"
    by (cases "traverseArray (map snd (safe_entries obj)) ctx")
  with a traverseObject_safe_entries[of obj ctx]
  obtain vs where vs: "x = Inr vs" "kvs = zip (map fst (safe_entries obj)) vs"
    by (cases x) auto
  from traverseArray_length[OF t[unfolded vs(1)]]
  have "length vs = length (map fst (safe_entries obj))" by simp
  with vs(2) have "map fst kvs = map fst (safe_entries obj)" by simp
  then show "map fst kvs = filter (\<lambda>k. k \<notin> DANGEROUS_KEYS) (map fst obj)"
    by (simp add: safe_entries_keys)
next
  show "replaceDogsWithCats input l M = replaceDogsWithCats (strip_dangerous input) l M"
    by (simp add: replaceDogsWithCats_def traverse_strip(1))
next
  assume "replaceDogsWithCats input l M = Inr r"
  then show "no_dangerous (result r)"
    by (auto simp: replaceDogsWithCats_def split: prod.splits sum.splits
        dest: traverse_no_dangerous(1))
qed

theorem dangerous_keys_dropped_witness:
  "replaceDogsWithCats
      (JObject [(js ''__proto__'', JObject [(js ''x'', JString (js ''dog''))]),
                (js ''safe'', JString (js ''dog'')),
                (js ''constructor'', JArray [JString (js ''dog'')])]) 10 100 =
     Inr \<lparr>result = JObject [(js ''safe'', JString (js ''cat''))], replacements = 1,
          limitReached = False\<rparr>
   \<and> no_dangerous (JObject [(js ''safe'', JString (js ''cat''))])
   \<and> replaceDogsWithCats
      (strip_dangerous (JObject [(js ''__proto__'', JObject [(js ''x'', JString (js ''dog''))]),
                (js ''safe'', JString (js ''dog'')),
                (js ''constructor'', JArray [JString (js ''dog'')])])) 10 100 =
     Inr \<lparr>result = JObject [(js ''safe'', JString (js ''cat''))], replacements = 1,
          limitReached = False\<rparr>"
proof -
  have e: "replaceDogsWithCats
      (JObject [(js ''__proto__'', JObject [(js ''x'', JString (js ''dog''))]),
                (js ''safe'', JString (js ''dog'')),
                (js ''constructor'', JArray [JString (js ''dog'')])]) 10 100 =
     Inr \<lparr>result = JObject [(js ''safe'', JString (js ''cat''))], replacements = 1,
          limitReached = False\<rparr>"
    by code_simp
  from dangerous_keys_dropped[of "[]" "\<lparr>count = 0, limit = 10, depth = 0, maxDepth = 100\<rparr>" "[]"
      "\<lparr>count = 0, limit = 10, depth = 0, maxDepth = 100\<rparr>"
      "JObject [(js ''__proto__'', JObject [(js ''x'', JString (js ''dog''))]),
                (js ''safe'', JString (js ''dog'')),
                (js ''constructor'', JArray [JString (js ''dog'')])]" 10 100
      "\<lparr>result = JObject [(js ''safe'', JString (js ''cat''))], replacements = 1,
          limitReached = False\<rparr>"] e
  show ?thesis by (simp del: strip_dangerous.simps no_dangerous.simps)
qed

text \<open>
  C6. For every text, whatever value the grammar of \<open>JSON.parse\<close> gives for it: if
  \<open>safeJsonParse\<close> returns a value, no object in it, at any level, the root and objects
  inside arrays included, has a key of \<open>DANGEROUS_KEYS\<close>.
\<close>

theorem safeJsonParse_no_dangerous:
  assumes "safeJsonParse JSON_parse json = Inr v"
  shows "no_dangerous v"
  using assms internalize_no_dangerous(1)
  by (auto simp: safeJsonParse_def split: option.splits)

theorem safeJsonParse_no_dangerous_witness:
  \<open>safeJsonParse
      (\<lambda>text. if text = js ''{"__proto__":{"x":1},"safe":[{"constructor":null,"b":"dog"}]}''
         then Some (JObject [(js ''__proto__'', JObject [(js ''x'', JNumber 1)]),
                (js ''safe'', JArray [JObject [(js ''constructor'', JNull),
                                              (js ''b'', JString (js ''dog''))]])])
         else None)
      (js ''{"__proto__":{"x":1},"safe":[{"constructor":null,"b":"dog"}]}'') =
     Inr (JObject [(js ''safe'', JArray [JObject [(js ''b'', JString (js ''dog''))]])])
   \<and> no_dangerous (JObject [(js ''safe'', JArray [JObject [(js ''b'', JString (js ''dog''))]])])\<close>
proof -
  have e: \<open>safeJsonParse
      (\<lambda>text. if text = js ''{"__proto__":{"x":1},"safe":[{"constructor":null,"b":"dog"}]}''
         then Some (JObject [(js ''__proto__'', JObject [(js ''x'', JNumber 1)]),
                (js ''safe'', JArray [JObject [(js ''constructor'', JNull),
                                              (js ''b'', JString (js ''dog''))]])])
         else None)
      (js ''{"__proto__":{"x":1},"safe":[{"constructor":null,"b":"dog"}]}'') =
     Inr (JObject [(js ''safe'', JArray [JObject [(js ''b'', JString (js ''dog''))]])])\<close>
    by (simp add: safeJsonParse_def reviver_def DANGEROUS_KEYS_def js_def)
  from safeJsonParse_no_dangerous[OF e] e show ?thesis by (simp del: no_dangerous.simps)
qed

text \<open>
  C7, amended. With limit 0 and an input within the depth bound, \<open>replaceDogsWithCats\<close>
  replaces nothing: the result is the input with the entries under dangerous keys
  removed and every other string as it was, hence the input itself when it has no such
  key, \<open>replacements\<close> is 0 and \<open>limitReached\<close> is true, matches or not. With limit 0
  \<open>replaceInString\<close> returns every string unchanged and leaves the count alone.
\<close>

theorem zero_limit_no_replacement:
  assumes "int (nesting_depth v) \<le> M"
  shows "replaceDogsWithCats v 0 M =
           Inr \<lparr>result = strip_dangerous v, replacements = 0, limitReached = True\<rparr>
         \<and> (no_dangerous v \<longrightarrow> strip_dangerous v = v)
         \<and> (limit ctx = 0 \<and> 0 \<le> count ctx \<longrightarrow> replaceInString str ctx = (str, ctx))"
proof -
  from assms visited_le_nesting(1)[of v] have "int (visited_depth v) \<le> M" by simp
  then have "traverse v \<lparr>count = 0, limit = 0, depth = 0, maxDepth = M\<rparr> =
      (Inr (strip_dangerous v), \<lparr>count = 0, limit = 0, depth = 0, maxDepth = M\<rparr>)"
    by (intro traverse_noop(1)) simp_all
  then show ?thesis
    by (simp add: replaceDogsWithCats_def strip_dangerous_id(1) replaceInString_def)
qed

theorem zero_limit_no_replacement_witness:
  "int (nesting_depth (JArray [JString (js ''dog''), JObject [(js ''a'', JString (js ''a dog''))]])) \<le> 2
   \<and> replaceDogsWithCats (JArray [JString (js ''dog''), JObject [(js ''a'', JString (js ''a dog''))]]) 0 2 =
       Inr \<lparr>result = JArray [JString (js ''dog''), JObject [(js ''a'', JString (js ''a dog''))]],
            replacements = 0, limitReached = True\<rparr>
   \<and> replaceInString (js ''dog'') \<lparr>count = 0, limit = 0, depth = 1, maxDepth = 2\<rparr> =
       (js ''dog'', \<lparr>count = 0, limit = 0, depth = 1, maxDepth = 2\<rparr>)"
proof -
  have d: "int (nesting_depth (JArray [JString (js ''dog''), JObject [(js ''a'', JString (js ''a dog''))]])) \<le> 2"
    by code_simp
  have n: "no_dangerous (JArray [JString (js ''dog''), JObject [(js ''a'', JString (js ''a dog''))]])"
    by code_simp
  from zero_limit_no_replacement[OF d, of "\<lparr>count = 0, limit = 0, depth = 1, maxDepth = 2\<rparr>" "js ''dog''"]
    n d
  show ?thesis
    by (simp del: strip_dangerous.simps no_dangerous.simps nesting_depth.simps)
qed

text \<open>
  C7 as stated fails: with limit 0 the string under the key \<open>constructor\<close> is within the
  depth bound and is not returned at all, unchanged or otherwise; the result is the
  empty object.
\<close>

theorem zero_limit_counterexample:
  "int (nesting_depth (JObject [(js ''constructor'', JString (js ''dog''))])) \<le> 1
   \<and> replaceDogsWithCats (JObject [(js ''constructor'', JString (js ''dog''))]) 0 1 =
       Inr \<lparr>result = JObject [], replacements = 0, limitReached = True\<rparr>
   \<and> JObject [] \<noteq> JObject [(js ''constructor'', JString (js ''dog''))]"
proof -
  have e: "replaceDogsWithCats (JObject [(js ''constructor'', JString (js ''dog''))]) 0 1 =
       Inr \<lparr>result = JObject [], replacements = 0, limitReached = True\<rparr>"
    by code_simp
  then show ?thesis by simp
qed

text \<open>
  C8, amended. For an input whose strings have no whole-word match of the source word,
  within the depth bound, \<open>replaceDogsWithCats\<close> returns the input with the entries under
  dangerous keys removed, hence the input itself when it has no such key, with 0
  replacements, and \<open>limitReached\<close> is false whenever the limit is positive.
\<close>

theorem no_match_round_trip:
  assumes "occurrences v = 0" and "int (nesting_depth v) \<le> M"
  shows "replaceDogsWithCats v l M =
           Inr \<lparr>result = strip_dangerous v, replacements = 0, limitReached = (l \<le> 0)\<rparr>
         \<and> (no_dangerous v \<longrightarrow> strip_dangerous v = v)"
proof -
  from assms(2) visited_le_nesting(1)[of v] have "int (visited_depth v) \<le> M" by simp
  with assms(1) have "traverse v \<lparr>count = 0, limit = l, depth = 0, maxDepth = M\<rparr> =
      (Inr (strip_dangerous v), \<lparr>count = 0, limit = l, depth = 0, maxDepth = M\<rparr>)"
    by (intro traverse_noop(1)) simp_all
  then show ?thesis
    by (simp add: replaceDogsWithCats_def strip_dangerous_id(1))
qed

theorem no_match_round_trip_witness:
  "occurrences (JObject [(js ''dog'', JArray [JString (js ''hotdog''), JNumber 7, JString (js ''Dog'')])]) = 0
   \<and> int (nesting_depth (JObject [(js ''dog'', JArray [JString (js ''hotdog''), JNumber 7, JString (js ''Dog'')])])) \<le> 2
   \<and> replaceDogsWithCats (JObject [(js ''dog'', JArray [JString (js ''hotdog''), JNumber 7, JString (js ''Dog'')])]) 5 2 =
       Inr \<lparr>result = JObject [(js ''dog'', JArray [JString (js ''hotdog''), JNumber 7, JString (js ''Dog'')])],
            replacements = 0, limitReached = False\<rparr>"
proof -
  have o: "occurrences (JObject [(js ''dog'', JArray [JString (js ''hotdog''), JNumber 7, JString (js ''Dog'')])]) = 0"
    by code_simp
  have d: "int (nesting_depth (JObject [(js ''dog'', JArray [JString (js ''hotdog''), JNumber 7, JString (js ''Dog'')])])) \<le> 2"
    by code_simp
  have n: "no_dangerous (JObject [(js ''dog'', JArray [JString (js ''hotdog''), JNumber 7, JString (js ''Dog'')])])"
    by code_simp
  from no_match_round_trip[OF o d] n o d show ?thesis
    by (simp del: strip_dangerous.simps no_dangerous.simps nesting_depth.simps occurrences.simps)
qed

text \<open>
  C8 as stated fails: an object with the key \<open>constructor\<close> contains no match and is
  within the depth bound, and the result is the empty object, not the input.
\<close>

theorem no_match_round_trip_counterexample:
  "occurrences (JObject [(js ''constructor'', JNumber 1)]) = 0
   \<and> int (nesting_depth (JObject [(js ''constructor'', JNumber 1)])) \<le> 1
   \<and> replaceDogsWithCats (JObject [(js ''constructor'', JNumber 1)]) 10 1 =
       Inr \<lparr>result = JObject [], replacements = 0, limitReached = False\<rparr>
   \<and> JObject [] \<noteq> JObject [(js ''constructor'', JNumber 1)]"
proof -
  have e: "replaceDogsWithCats (JObject [(js ''constructor'', JNumber 1)]) 10 1 =
       Inr \<lparr>result = JObject [], replacements = 0, limitReached = False\<rparr>"
    by code_simp
  then show ?thesis by simp
qed


end
